theory Spec2Isabelle
  imports Main
begin

section \<open>Data model of package cron\<close>

text \<open>
  A Go string is modelled as the sequence of its runes (code points); a byte that is not
  part of a valid UTF-8 sequence decodes to U+FFFD, which is one more rune that is not a
  space.
\<close>

type_synonym rune = nat
type_synonym gostring = "rune list"

text \<open>\<^verbatim>\<open>*time.Location\<close>: a zone by its name; the nil pointer is \<open>None\<close>.\<close>

type_synonym location = string

definition UTC :: location where
  "UTC = ''UTC''"

text \<open>
  \<^verbatim>\<open>context.Context\<close> values built with \<^verbatim>\<open>context.WithCancel\<close>. Every call of
  \<^verbatim>\<open>WithCancel\<close> makes one cancel function, known by its number (a \<open>cid\<close>); a context is
  the list of the cancel functions that end it: its own first, then those of its
  ancestors. \<^verbatim>\<open>context.Background()\<close> has none.
\<close>

type_synonym cid = nat
type_synonym ctx = "cid list"

definition Background :: ctx where
  "Background = []"

text \<open>The callback \<^verbatim>\<open>func(ctx context.Context)\<close> is known by a name only; nil is \<open>None\<close>.\<close>

type_synonym fn = nat

text \<open>
  \<^verbatim>\<open>type Job struct\<close>. The field \<^verbatim>\<open>Schedule\<close> is written \<open>Schedule_fld\<close>, the name
  \<open>Schedule\<close> being the constructor function's. The field \<^verbatim>\<open>mutex\<close> has no
  counterpart: a section of code between \<^verbatim>\<open>Lock\<close> and \<^verbatim>\<open>Unlock\<close> is one step of the
  model.
\<close>

record 's Job =
  scheduleStr :: gostring
  Schedule_fld :: 's
  Blocking :: bool
  Timezone :: "location option"
  Ctx :: ctx
  cancelFunc :: "cid option"
  Fn :: "fn option"
  isRunning :: bool

text \<open>
  The goroutine that \<^verbatim>\<open>Start\<close> launches. Its local variables are \<^verbatim>\<open>done\<close> (read once,
  before the loop), and per iteration \<^verbatim>\<open>isBlocking\<close> and \<^verbatim>\<open>timer\<close>, which the position
  \<open>Waiting\<close> carries: the timer by the instant at which it fires.
\<close>

datatype position = AtTop | Waiting bool int | InCallback | Exited

record task =
  job_of :: nat
  done_ch :: ctx
  at :: position

text \<open>One invocation of the callback: by which loop, which function, with which context,
  inline (\<^verbatim>\<open>j.Fn(j.Ctx)\<close>) or on a goroutine of its own (\<^verbatim>\<open>go j.Fn(j.Ctx)\<close>).\<close>

datatype mode = Inline | Detached

record call =
  by_task :: nat
  fn_called :: fn
  ctx_passed :: ctx
  how :: mode

text \<open>
  The state of the program: the Jobs allocated so far (a \<^verbatim>\<open>*Job\<close> is an index into
  \<open>jobs\<close>), for each cancel function whether it has been called, the loop goroutines
  launched so far, the callback invocations so far and the wall clock (nanoseconds).
\<close>

record 's world =
  jobs :: "'s Job list"
  cancelled :: "bool list"
  tasks :: "task list"
  calls :: "call list"
  clock :: int

definition init :: "'s world" where
  "init = \<lparr>jobs = [], cancelled = [], tasks = [], calls = [], clock = 0\<rparr>"

datatype fault =
    InvalidCronSchedule
  | NilPointer
  | NilParentContext
  | NilFunc
  | NilLocation

section \<open>The standard library used by the package\<close>

subsection \<open>strings.Fields\<close>

text \<open>\<^verbatim>\<open>unicode.IsSpace\<close>: the Latin-1 spaces and the other code points of White_Space.\<close>

definition isSpace :: "rune \<Rightarrow> bool" where
  "isSpace r = (r = 9 \<or> r = 10 \<or> r = 11 \<or> r = 12 \<or> r = 13 \<or> r = 32 \<or> r = 133 \<or> r = 160
     \<or> r = 5760 \<or> (8192 \<le> r \<and> r \<le> 8202) \<or> r = 8232 \<or> r = 8233 \<or> r = 8239 \<or> r = 8287
     \<or> r = 12288)"

text \<open>\<open>fields_from cur s\<close>: the fields of \<open>s\<close>, \<open>cur\<close> being the field under way.\<close>

fun fields_from :: "gostring \<Rightarrow> gostring \<Rightarrow> gostring list" where
  "fields_from cur [] = (if cur = [] then [] else [cur])"
| "fields_from cur (r # rs) =
     (if isSpace r then (if cur = [] then fields_from [] rs else cur # fields_from [] rs)
      else fields_from (cur @ [r]) rs)"

definition Fields :: "gostring \<Rightarrow> gostring list" where
  "Fields s = fields_from [] s"

text \<open>A string literal of the source, as runes.\<close>

definition lit :: "string \<Rightarrow> gostring" where
  "lit s = map of_char s"

subsection \<open>context\<close>

text \<open>
  Modelled from the spec: the cancellable handle, Go's package \<^verbatim>\<open>context\<close>, which is not
  among the sources. The spec asks of it to derive a child from a parent, to trigger a
  handle, and to wait for "has this been triggered"; the child observes the parent's
  cancellation in addition to its own, and cancelling the child does not cancel the
  parent. \<^verbatim>\<open>context.WithCancel(parent)\<close> returns the child context, its cancel function
  and the state in which that function exists and has not been called.
\<close>

definition WithCancel :: "ctx \<Rightarrow> 's world \<Rightarrow> ctx \<times> cid \<times> 's world" where
  "WithCancel parent w =
     (let c = length (cancelled w) in (c # parent, c, w\<lparr>cancelled := cancelled w @ [False]\<rparr>))"

text \<open>Calling the cancel function \<open>c\<close>.\<close>

definition cancel :: "cid \<Rightarrow> 's world \<Rightarrow> 's world" where
  "cancel c w = w\<lparr>cancelled := (cancelled w)[c := True]\<rparr>"

text \<open>Whether the cancel function \<open>c\<close> has been called, \<open>cs\<close> being the record of calls.\<close>

definition fired_in :: "bool list \<Rightarrow> cid \<Rightarrow> bool" where
  "fired_in cs c = (c < length cs \<and> cs ! c)"

text \<open>Whether the channel \<^verbatim>\<open>ctx.Done()\<close> is closed: the context's own cancel function or
  one of an ancestor has been called.\<close>

fun done_in :: "bool list \<Rightarrow> ctx \<Rightarrow> bool" where
  "done_in cs [] = False"
| "done_in cs (c # rest) = (fired_in cs c \<or> done_in cs rest)"

definition is_done :: "'s world \<Rightarrow> ctx \<Rightarrow> bool" where
  "is_done w x = done_in (cancelled w) x"

subsection \<open>The cron parser and the schedule it compiles\<close>

text \<open>
  Package \<^verbatim>\<open>github.com/robfig/cron/v3\<close> is not part of the repository. Its parser is a
  parameter \<open>parse\<close> of the model (the configured fields and the text give an error or a
  schedule of type \<open>'s\<close>), and so is \<^verbatim>\<open>Schedule.Next\<close>, the parameter \<open>nxt\<close>: the schedule,
  the zone of the time it is given and its instant give the next instant.
\<close>

datatype ParseOption = Second | Minute | Hour | Dom | Month | Dow

type_synonym 's parser = "ParseOption list \<Rightarrow> gostring \<Rightarrow> string + 's"

type_synonym 's next_fn = "'s \<Rightarrow> location \<Rightarrow> int \<Rightarrow> int"

text \<open>\<^verbatim>\<open>_cron.NewParser(options)\<close>: the options, joined by \<^verbatim>\<open>|\<close> in the source.\<close>

definition NewParser :: "ParseOption list \<Rightarrow> ParseOption list" where
  "NewParser options = options"

section \<open>The operations of the package\<close>

text \<open>What a method does to the Job it is called on.\<close>

definition upd_job :: "nat \<Rightarrow> ('s Job \<Rightarrow> 's Job) \<Rightarrow> 's world \<Rightarrow> 's world" where
  "upd_job j f w = w\<lparr>jobs := (jobs w)[j := f (jobs w ! j)]\<rparr>"

text \<open>
  \<^verbatim>\<open>func Schedule(scheduleStr string) *Job\<close>. The panic is the result \<open>Inl\<close>; otherwise
  the new Job is allocated and its pointer returned.
\<close>

definition Schedule :: "'s parser \<Rightarrow> gostring \<Rightarrow> 's world \<Rightarrow> fault + (nat \<times> 's world)" where
  "Schedule parse str w =
     (let fields = Fields str;
          parser = (if length fields = 6
                    then NewParser [Second, Minute, Hour, Dom, Month, Dow]
                    else NewParser [Minute, Hour, Dom, Month, Dow])
      in case parse parser str of
           Inl err \<Rightarrow> Inl InvalidCronSchedule
         | Inr schedule \<Rightarrow>
             (case WithCancel Background w of
                (ctx, cancelF, w1) \<Rightarrow>
                  Inr (length (jobs w1),
                       w1\<lparr>jobs := jobs w1 @
                          [\<lparr>scheduleStr = str, Schedule_fld = schedule, Blocking = False,
                            Timezone = Some UTC, Ctx = ctx, cancelFunc = Some cancelF,
                            Fn = None, isRunning = False\<rparr>]\<rparr>)))"

text \<open>\<^verbatim>\<open>func (j *Job) SetBlocking(blocking bool) *Job\<close>\<close>

definition SetBlocking :: "nat \<Rightarrow> bool \<Rightarrow> 's world \<Rightarrow> fault + (nat \<times> 's world)" where
  "SetBlocking j blocking w =
     (if j < length (jobs w)
      then Inr (j, upd_job j (\<lambda>J. J\<lparr>Blocking := blocking\<rparr>) w)
      else Inl NilPointer)"

text \<open>
  \<^verbatim>\<open>func (j *Job) WithContext(ctx context.Context) *Job\<close>. \<^verbatim>\<open>context.WithCancel\<close>
  panics on a nil parent, after the previous context has been cancelled.
\<close>

definition WithContext :: "nat \<Rightarrow> ctx option \<Rightarrow> 's world \<Rightarrow> fault + (nat \<times> 's world)" where
  "WithContext j parent w =
     (if j < length (jobs w)
      then (let w1 = (case cancelFunc (jobs w ! j) of
                        None \<Rightarrow> w
                      | Some c \<Rightarrow> cancel c w)
            in case parent of
                 None \<Rightarrow> Inl NilParentContext
               | Some p \<Rightarrow>
                   (case WithCancel p w1 of
                      (ctx, cancelF, w2) \<Rightarrow>
                        Inr (j, upd_job j (\<lambda>J. J\<lparr>Ctx := ctx, cancelFunc := Some cancelF\<rparr>) w2)))
      else Inl NilPointer)"

text \<open>\<^verbatim>\<open>func (j *Job) SetTimezone(loc *time.Location) *Job\<close>\<close>

definition SetTimezone :: "nat \<Rightarrow> location option \<Rightarrow> 's world \<Rightarrow> fault + (nat \<times> 's world)" where
  "SetTimezone j loc w =
     (if j < length (jobs w)
      then Inr (j, upd_job j (\<lambda>J. J\<lparr>Timezone := loc\<rparr>) w)
      else Inl NilPointer)"

text \<open>\<^verbatim>\<open>func (j *Job) Execute(fn func(ctx context.Context)) *Job\<close>\<close>

definition Execute :: "nat \<Rightarrow> fn option \<Rightarrow> 's world \<Rightarrow> fault + (nat \<times> 's world)" where
  "Execute j f w =
     (if j < length (jobs w)
      then Inr (j, upd_job j (\<lambda>J. J\<lparr>Fn := f\<rparr>) w)
      else Inl NilPointer)"

text \<open>
  \<^verbatim>\<open>func (j *Job) Start()\<close>, up to and including the \<^verbatim>\<open>go\<close> statement: the guard and
  the flag under the lock, then \<^verbatim>\<open>done := j.Ctx.Done()\<close>, then the new goroutine, which
  stands at the top of its loop.
\<close>

definition Start :: "nat \<Rightarrow> 's world \<Rightarrow> fault + 's world" where
  "Start j w =
     (if j < length (jobs w)
      then (if Fn (jobs w ! j) = None \<or> isRunning (jobs w ! j)
            then Inr w
            else (let w1 = upd_job j (\<lambda>J. J\<lparr>isRunning := True\<rparr>) w;
                      done = Ctx (jobs w1 ! j)
                  in Inr (w1\<lparr>tasks := tasks w1 @ [\<lparr>job_of = j, done_ch = done, at = AtTop\<rparr>]\<rparr>)))
      else Inl NilPointer)"

text \<open>\<^verbatim>\<open>func (j *Job) Stop()\<close>. Calling a nil \<^verbatim>\<open>cancelFunc\<close> panics.\<close>

definition Stop :: "nat \<Rightarrow> 's world \<Rightarrow> fault + 's world" where
  "Stop j w =
     (if j < length (jobs w)
      then (if isRunning (jobs w ! j)
            then (case cancelFunc (jobs w ! j) of
                    None \<Rightarrow> Inl NilFunc
                  | Some c \<Rightarrow> Inr (cancel c (upd_job j (\<lambda>J. J\<lparr>isRunning := False\<rparr>) w)))
            else Inr w)
      else Inl NilPointer)"

subsection \<open>The loop of the goroutine\<close>

text \<open>
  The goroutine \<open>g\<close> takes one of four steps, each \<open>None\<close> where the goroutine is not at
  the place of the step. Between \<^verbatim>\<open>RLock\<close> and \<^verbatim>\<open>RUnlock\<close>: \<^verbatim>\<open>j.now()\<close> twice (a nil
  \<^verbatim>\<open>Timezone\<close> panics in \<^verbatim>\<open>Time.In\<close>), \<^verbatim>\<open>Schedule.Next\<close>, the timer, which fires at once
  when its duration is not positive, and \<^verbatim>\<open>isBlocking\<close>. Both readings of the clock
  give the same instant: no time passes inside a step.
\<close>

definition set_at :: "nat \<Rightarrow> position \<Rightarrow> 's world \<Rightarrow> 's world" where
  "set_at g p w = w\<lparr>tasks := (tasks w)[g := (tasks w ! g)\<lparr>at := p\<rparr>]\<rparr>"

definition loop_iter :: "'s next_fn \<Rightarrow> nat \<Rightarrow> 's world \<Rightarrow> (fault + 's world) option" where
  "loop_iter nxt g w =
     (if g < length (tasks w) \<and> at (tasks w ! g) = AtTop
      then (let J = jobs w ! job_of (tasks w ! g)
            in case Timezone J of
                 None \<Rightarrow> Some (Inl NilLocation)
               | Some tz \<Rightarrow>
                   (let previousRun = clock w;
                        currentRun = nxt (Schedule_fld J) tz previousRun;
                        timer = clock w + max 0 (currentRun - clock w);
                        isBlocking = Blocking J
                    in Some (Inr (set_at g (Waiting isBlocking timer) w))))
      else None)"

text \<open>
  \<^verbatim>\<open>case <-timer.C\<close>, which can be taken once the timer has fired. \<^verbatim>\<open>j.Fn\<close> and
  \<^verbatim>\<open>j.Ctx\<close> are read here; calling a nil \<^verbatim>\<open>Fn\<close> panics.
\<close>

definition loop_fire :: "nat \<Rightarrow> 's world \<Rightarrow> (fault + 's world) option" where
  "loop_fire g w =
     (if g < length (tasks w)
      then (case at (tasks w ! g) of
              Waiting isBlocking timer \<Rightarrow>
                (if timer \<le> clock w
                 then (let J = jobs w ! job_of (tasks w ! g)
                       in case Fn J of
                            None \<Rightarrow> Some (Inl NilFunc)
                          | Some f \<Rightarrow>
                              Some (Inr (set_at g (if isBlocking then InCallback else AtTop)
                                (w\<lparr>calls := calls w @
                                   [\<lparr>by_task = g, fn_called = f, ctx_passed = Ctx J,
                                     how = (if isBlocking then Inline else Detached)\<rparr>]\<rparr>))))
                 else None)
            | _ \<Rightarrow> None)
      else None)"

text \<open>The inline callback returns and the loop goes on.\<close>

definition loop_return :: "nat \<Rightarrow> 's world \<Rightarrow> (fault + 's world) option" where
  "loop_return g w =
     (if g < length (tasks w) \<and> at (tasks w ! g) = InCallback
      then Some (Inr (set_at g AtTop w))
      else None)"

text \<open>\<^verbatim>\<open>case <-done\<close>, which can be taken once the channel is closed: \<^verbatim>\<open>timer.Stop()\<close>
  and \<^verbatim>\<open>return\<close>.\<close>

definition loop_done :: "nat \<Rightarrow> 's world \<Rightarrow> (fault + 's world) option" where
  "loop_done g w =
     (if g < length (tasks w)
      then (case at (tasks w ! g) of
              Waiting isBlocking timer \<Rightarrow>
                (if is_done w (done_ch (tasks w ! g))
                 then Some (Inr (set_at g Exited w))
                 else None)
            | _ \<Rightarrow> None)
      else None)"

subsection \<open>Executions\<close>

text \<open>
  An execution is a sequence of events: the calls of the package's functions, each
  running to its end before the next event, the steps of the loop goroutines, and what
  the rest of the program does to the state: it derives a context of its own, a context
  of its own is cancelled (by its cancel function or its deadline), time passes.
\<close>

datatype event =
    ESchedule gostring
  | ESetBlocking nat bool
  | EWithContext nat "ctx option"
  | ESetTimezone nat "location option"
  | EExecute nat "fn option"
  | EStart nat
  | EStop nat
  | ENewContext ctx
  | ECancel cid
  | ETick nat
  | EIter nat
  | EFire nat
  | EReturn nat
  | EDone nat

definition dropret :: "fault + (nat \<times> 's world) \<Rightarrow> (fault + 's world) option" where
  "dropret r = (case r of Inl e \<Rightarrow> Some (Inl e) | Inr (j, w) \<Rightarrow> Some (Inr w))"

fun step :: "'s parser \<Rightarrow> 's next_fn \<Rightarrow> event \<Rightarrow> 's world \<Rightarrow> (fault + 's world) option" where
  "step parse nxt (ESchedule str) w = dropret (Schedule parse str w)"
| "step parse nxt (ESetBlocking j b) w = dropret (SetBlocking j b w)"
| "step parse nxt (EWithContext j p) w = dropret (WithContext j p w)"
| "step parse nxt (ESetTimezone j loc) w = dropret (SetTimezone j loc w)"
| "step parse nxt (EExecute j f) w = dropret (Execute j f w)"
| "step parse nxt (EStart j) w = Some (Start j w)"
| "step parse nxt (EStop j) w = Some (Stop j w)"
| "step parse nxt (ENewContext p) w = (case WithCancel p w of (c, cf, w1) \<Rightarrow> Some (Inr w1))"
| "step parse nxt (ECancel c) w = Some (Inr (cancel c w))"
| "step parse nxt (ETick d) w = Some (Inr (w\<lparr>clock := clock w + int d\<rparr>))"
| "step parse nxt (EIter g) w = loop_iter nxt g w"
| "step parse nxt (EFire g) w = loop_fire g w"
| "step parse nxt (EReturn g) w = loop_return g w"
| "step parse nxt (EDone g) w = loop_done g w"

text \<open>Running the events in order; a panic ends the program, an event that cannot
  happen where it stands makes the sequence no execution (\<open>None\<close>).\<close>

fun run :: "'s parser \<Rightarrow> 's next_fn \<Rightarrow> event list \<Rightarrow> 's world \<Rightarrow> (fault + 's world) option" where
  "run parse nxt [] w = Some (Inr w)"
| "run parse nxt (e # es) w =
     (case step parse nxt e w of
        None \<Rightarrow> None
      | Some (Inl f) \<Rightarrow> Some (Inl f)
      | Some (Inr w1) \<Rightarrow> run parse nxt es w1)"

subsection \<open>JSON\<close>

text \<open>
  \<^verbatim>\<open>func (j *Job) MarshalJSON() ([]byte, error)\<close>, the output as a JSON value.
  \<^verbatim>\<open>json.Marshal\<close> writes the field \<^verbatim>\<open>ScheduleStr\<close> of the anonymous struct, then the
  exported fields of the embedded \<^verbatim>\<open>*Alias\<close> whose tag is not \<^verbatim>\<open>"-"\<close>, under the names of
  their tags. How it writes a schedule and a \<^verbatim>\<open>*time.Location\<close> is decided outside the
  repository: the parameters \<open>enc_schedule\<close> and \<open>enc_location\<close>, which may fail.
\<close>

datatype json = JNull | JBool bool | JString gostring | JObject "(string \<times> json) list"


section \<open>Well-formed states\<close>

text \<open>A context whose cancel functions all exist.\<close>

fun ctx_ok :: "bool list \<Rightarrow> ctx \<Rightarrow> bool" where
  "ctx_ok cs [] = True"
| "ctx_ok cs (c # rest) = (c < length cs \<and> ctx_ok cs rest)"

text \<open>The Job's \<^verbatim>\<open>cancelFunc\<close> is the cancel function of its \<^verbatim>\<open>Ctx\<close>.\<close>

definition handle_ok :: "'s world \<Rightarrow> 's Job \<Rightarrow> bool" where
  "handle_ok w J = (\<exists>c rest. Ctx J = c # rest \<and> cancelFunc J = Some c \<and> c < length (cancelled w))"

text \<open>A loop that has not returned and whose \<^verbatim>\<open>done\<close> channel is still open.\<close>

definition live :: "'s world \<Rightarrow> task \<Rightarrow> bool" where
  "live w t = (at t \<noteq> Exited \<and> \<not> is_done w (done_ch t))"

definition handles_ok :: "'s world \<Rightarrow> bool" where
  "handles_ok w = (\<forall>j<length (jobs w). handle_ok w (jobs w ! j))"

definition tasks_ok :: "'s world \<Rightarrow> bool" where
  "tasks_ok w = (\<forall>g<length (tasks w). job_of (tasks w ! g) < length (jobs w))"

text \<open>A live loop waits on the current context of its Job, and the Job is marked
  running; no Job has two live loops.\<close>

definition live_current :: "'s world \<Rightarrow> bool" where
  "live_current w = (\<forall>g<length (tasks w). live w (tasks w ! g) \<longrightarrow>
            done_ch (tasks w ! g) = Ctx (jobs w ! job_of (tasks w ! g))
          \<and> isRunning (jobs w ! job_of (tasks w ! g)))"

definition live_unique :: "'s world \<Rightarrow> bool" where
  "live_unique w = (\<forall>g<length (tasks w). \<forall>h<length (tasks w).
            live w (tasks w ! g) \<and> live w (tasks w ! h)
          \<and> job_of (tasks w ! g) = job_of (tasks w ! h) \<longrightarrow> g = h)"

definition Inv :: "'s world \<Rightarrow> bool" where
  "Inv w = (handles_ok w \<and> tasks_ok w \<and> live_current w \<and> live_unique w)"

text \<open>The steps of the loop \<open>g\<close>.\<close>

definition loop_event :: "nat \<Rightarrow> event \<Rightarrow> bool" where
  "loop_event g e = (e = EIter g \<or> e = EFire g \<or> e = EReturn g \<or> e = EDone g)"


section \<open>A parser and a schedule for the examples\<close>

text \<open>
  The examples need some parser and some schedule. This parser accepts the texts that
  have as many fields as the parser has options, and nothing else is checked; its
  schedule is the number of fields. The next instant is one nanosecond later.
\<close>

definition count_parser :: "nat parser" where
  "count_parser options str =
     (if length (Fields str) = length options then Inr (length options)
      else Inl ''wrong number of fields'')"

definition tick_next :: "nat next_fn" where
  "tick_next s tz t = t + 1"

text \<open>The state after \<^verbatim>\<open>cron.Schedule("* * * * * *").Execute(f)\<close>, \<open>f\<close> being callback 1.\<close>

definition example_job :: "nat Job" where
  "example_job = \<lparr>scheduleStr = lit ''* * * * * *'', Schedule_fld = 6, Blocking = False,
     Timezone = Some UTC, Ctx = [0], cancelFunc = Some 0, Fn = Some 1, isRunning = False\<rparr>"

definition example_world :: "nat world" where
  "example_world = \<lparr>jobs = [example_job], cancelled = [False], tasks = [], calls = [], clock = 0\<rparr>"

text \<open>The calls that change the configuration of a Job.\<close>

fun config_event :: "event \<Rightarrow> bool" where
  "config_event (ESetBlocking j b) = True"
| "config_event (EWithContext j p) = True"
| "config_event (ESetTimezone j loc) = True"
| "config_event (EExecute j f) = True"
| "config_event e = False"

section \<open>Facts about cancellation\<close>

lemma fired_in_append: "fired_in (cs @ [False]) c = fired_in cs c"
  by (auto simp: fired_in_def nth_append)

lemma done_in_append: "done_in (cs @ [False]) x = done_in cs x"
  by (induction x) (simp_all add: fired_in_append)

lemma fired_in_update: "fired_in (cs[c := True]) d = (fired_in cs d \<or> (d = c \<and> c < length cs))"
  by (cases "d = c") (auto simp: fired_in_def)

lemma done_in_update_mono: "done_in cs x \<Longrightarrow> done_in (cs[c := True]) x"
  by (induction x) (auto simp: fired_in_update)

lemma done_in_update_hd: "c < length cs \<Longrightarrow> done_in (cs[c := True]) (c # rest)"
  by (simp add: fired_in_update)

section \<open>The well-formed states are closed under every event\<close>

lemma Inv_init: "Inv init"
  by (simp add: Inv_def init_def handles_ok_def tasks_ok_def live_current_def live_unique_def)

lemma Schedule_result:
  assumes "Schedule parse str w = Inr (j, w')"
  shows "\<exists>J. j = length (jobs w) \<and> jobs w' = jobs w @ [J] \<and> cancelled w' = cancelled w @ [False]
     \<and> tasks w' = tasks w \<and> calls w' = calls w \<and> clock w' = clock w
     \<and> Ctx J = [length (cancelled w)] \<and> cancelFunc J = Some (length (cancelled w))
     \<and> \<not> isRunning J \<and> Fn J = None \<and> Blocking J = False \<and> Timezone J = Some UTC
     \<and> scheduleStr J = str"
  using assms
  by (auto simp: Schedule_def WithCancel_def Background_def Let_def split: sum.splits)

lemma Inv_Schedule:
  assumes "Inv w" "Schedule parse str w = Inr (j, w')"
  shows "Inv w'"
proof -
  from Schedule_result[OF assms(2)] obtain J where
    J: "jobs w' = jobs w @ [J]" "cancelled w' = cancelled w @ [False]" "tasks w' = tasks w"
       "Ctx J = [length (cancelled w)]" "cancelFunc J = Some (length (cancelled w))"
    by blast
  have live_eq: "live w' t = live w t" for t
    by (simp add: live_def is_done_def J done_in_append)
  from assms(1) have a: "handles_ok w" "tasks_ok w" "live_current w" "live_unique w"
    by (simp_all add: Inv_def)
  have "handles_ok w'"
    using a(1) unfolding handles_ok_def handle_ok_def J
    by (auto simp: nth_append less_Suc_eq J)
  moreover have "tasks_ok w'"
    using a(2) unfolding tasks_ok_def J by auto
  moreover have "live_current w'"
    using a(2,3) unfolding live_current_def tasks_ok_def live_eq J
    by (auto simp: nth_append)
  moreover have "live_unique w'"
    using a(4) unfolding live_unique_def live_eq J by auto
  ultimately show ?thesis by (simp add: Inv_def)
qed

lemma Inv_simple:
  assumes "Inv w" "jobs w' = (jobs w)[j := J']"
    "Ctx J' = Ctx (jobs w ! j)" "cancelFunc J' = cancelFunc (jobs w ! j)"
    "isRunning J' = isRunning (jobs w ! j)"
    "cancelled w' = cancelled w" "tasks w' = tasks w"
  shows "Inv w'"
proof -
  have live_eq: "live w' t = live w t" for t
    by (simp add: live_def is_done_def assms)
  have same: "Ctx (jobs w' ! k) = Ctx (jobs w ! k)"
      "cancelFunc (jobs w' ! k) = cancelFunc (jobs w ! k)"
      "isRunning (jobs w' ! k) = isRunning (jobs w ! k)" if "k < length (jobs w)" for k
    using that by (cases "k = j"; simp add: assms)+
  have len: "length (jobs w') = length (jobs w)"
    by (simp add: assms)
  from assms(1) have a: "handles_ok w" "tasks_ok w" "live_current w" "live_unique w"
    by (simp_all add: Inv_def)
  have "handles_ok w'"
    using a(1) by (simp add: handles_ok_def handle_ok_def same len assms(6))
  moreover have "tasks_ok w'"
    using a(2) unfolding tasks_ok_def by (simp add: len assms(7))
  moreover have "live_current w'"
    using a(2,3) unfolding live_current_def tasks_ok_def live_eq
    by (simp add: assms(7) same)
  moreover have "live_unique w'"
    using a(4) unfolding live_unique_def live_eq by (auto simp: assms)
  ultimately show ?thesis by (simp add: Inv_def)
qed

lemma Inv_mono:
  assumes "Inv w" "jobs w' = jobs w" "length (tasks w') = length (tasks w)"
    "length (cancelled w) \<le> length (cancelled w')"
    "\<And>k. k < length (tasks w) \<Longrightarrow>
       job_of (tasks w' ! k) = job_of (tasks w ! k) \<and> done_ch (tasks w' ! k) = done_ch (tasks w ! k)
       \<and> (live w' (tasks w' ! k) \<longrightarrow> live w (tasks w ! k))"
  shows "Inv w'"
proof -
  from assms(1) have a: "handles_ok w" "tasks_ok w" "live_current w" "live_unique w"
    by (simp_all add: Inv_def)
  have "handles_ok w'"
    using a(1) assms(4) by (fastforce simp: handles_ok_def handle_ok_def assms(2))
  moreover have "tasks_ok w'"
    using a(2) by (simp add: tasks_ok_def assms(2,3,5))
  moreover have "live_current w'"
    using a(3) assms(5) by (simp add: live_current_def assms(2,3))
  moreover have "live_unique w'"
    unfolding live_unique_def
  proof (intro allI impI)
    fix g h assume "g < length (tasks w')" "h < length (tasks w')"
      and "live w' (tasks w' ! g) \<and> live w' (tasks w' ! h)
          \<and> job_of (tasks w' ! g) = job_of (tasks w' ! h)"
    then show "g = h"
      using a(4) assms(5)[of g] assms(5)[of h] by (simp add: live_unique_def assms(3))
  qed
  ultimately show ?thesis by (simp add: Inv_def)
qed

lemma Inv_kill:
  assumes "Inv w" "j < length (jobs w)" "jobs w' = (jobs w)[j := J']" "handle_ok w' J'"
    "length (cancelled w) \<le> length (cancelled w')" "tasks w' = tasks w"
    "\<And>t. live w' t \<Longrightarrow> live w t"
    "\<And>k. k < length (tasks w) \<Longrightarrow> job_of (tasks w ! k) = j \<Longrightarrow> \<not> live w' (tasks w ! k)"
  shows "Inv w'"
proof -
  from assms(1) have a: "handles_ok w" "tasks_ok w" "live_current w" "live_unique w"
    by (simp_all add: Inv_def)
  have len: "length (jobs w') = length (jobs w)"
    by (simp add: assms)
  have other: "jobs w' ! k = jobs w ! k" if "k \<noteq> j" for k
    using that by (simp add: assms(3))
  have "handle_ok w' (jobs w' ! k)" if "k < length (jobs w)" for k
  proof (cases "k = j")
    case True
    then show ?thesis using assms(2,4) by (simp add: assms(3))
  next
    case False
    then show ?thesis
      using a(1) that assms(5) by (fastforce simp: handles_ok_def handle_ok_def other)
  qed
  then have "handles_ok w'"
    by (simp add: handles_ok_def len)
  moreover have "tasks_ok w'"
    using a(2) by (simp add: tasks_ok_def len assms(6))
  moreover have "live_current w'"
    unfolding live_current_def assms(6)
  proof (intro allI impI)
    fix g assume g: "g < length (tasks w)" and l: "live w' (tasks w ! g)"
    then have "job_of (tasks w ! g) \<noteq> j"
      using assms(8) by blast
    then show "done_ch (tasks w ! g) = Ctx (jobs w' ! job_of (tasks w ! g))
          \<and> isRunning (jobs w' ! job_of (tasks w ! g))"
      using a(3) g assms(7)[OF l] by (simp add: live_current_def other)
  qed
  moreover have "live_unique w'"
    using a(4) assms(7) unfolding live_unique_def assms(6) by blast
  ultimately show ?thesis by (simp add: Inv_def)
qed

lemma Inv_append_task:
  assumes "Inv w" "j < length (jobs w)" "isRunning (jobs w ! j)"
    "\<And>k. k < length (tasks w) \<Longrightarrow> job_of (tasks w ! k) = j \<Longrightarrow> \<not> live w (tasks w ! k)"
  shows "Inv (w\<lparr>tasks := tasks w @ [\<lparr>job_of = j, done_ch = Ctx (jobs w ! j), at = p\<rparr>]\<rparr>)"
proof -
  from assms(1) have a: "handles_ok w" "tasks_ok w" "live_current w" "live_unique w"
    by (simp_all add: Inv_def)
  let ?w = "w\<lparr>tasks := tasks w @ [\<lparr>job_of = j, done_ch = Ctx (jobs w ! j), at = p\<rparr>]\<rparr>"
  have live_eq: "live ?w t = live w t" for t
    by (simp add: live_def is_done_def)
  have "handles_ok ?w"
    using a(1) by (simp add: handles_ok_def handle_ok_def)
  moreover have "tasks_ok ?w"
    using a(2) assms(2) by (simp add: tasks_ok_def nth_append less_Suc_eq)
  moreover have "live_current ?w"
    using a(3) assms(3) unfolding live_current_def live_eq
    by (auto simp: nth_append less_Suc_eq)
  moreover have "live_unique ?w"
    using a(4) assms(4) unfolding live_unique_def live_eq
    by (auto simp: nth_append less_Suc_eq)
  ultimately show ?thesis by (simp add: Inv_def)
qed

lemma live_after_cancel:
  assumes "cancelled w' = (cancelled w)[c := True] \<or> cancelled w' = (cancelled w)[c := True] @ [False]"
    "live w' t"
  shows "live w t"
  using assms by (auto simp: live_def is_done_def done_in_append dest: done_in_update_mono)

lemma dead_after_cancel:
  assumes "cancelled w' = (cancelled w)[c := True] \<or> cancelled w' = (cancelled w)[c := True] @ [False]"
    "done_ch t = c # rest" "c < length (cancelled w)"
  shows "\<not> live w' t"
  using assms by (auto simp: live_def is_done_def done_in_append fired_in_append fired_in_update)

lemma Stop_result:
  assumes "Stop j w = Inr w'" "isRunning (jobs w ! j)"
  shows "\<exists>c. cancelFunc (jobs w ! j) = Some c \<and> j < length (jobs w)
      \<and> jobs w' = (jobs w)[j := (jobs w ! j)\<lparr>isRunning := False\<rparr>]
      \<and> cancelled w' = (cancelled w)[c := True]
      \<and> tasks w' = tasks w \<and> calls w' = calls w \<and> clock w' = clock w"
  using assms
  by (auto simp: Stop_def cancel_def upd_job_def split: if_splits option.splits)

lemma Stop_idle:
  assumes "Stop j w = Inr w'" "\<not> isRunning (jobs w ! j)"
  shows "w' = w"
  using assms by (auto simp: Stop_def split: if_splits)

lemma Inv_Stop:
  assumes "Inv w" "Stop j w = Inr w'"
  shows "Inv w'"
proof (cases "isRunning (jobs w ! j)")
  case False
  then show ?thesis using assms Stop_idle by blast
next
  case True
  from Stop_result[OF assms(2) True] obtain c where
    r: "cancelFunc (jobs w ! j) = Some c" "j < length (jobs w)"
       "jobs w' = (jobs w)[j := (jobs w ! j)\<lparr>isRunning := False\<rparr>]"
       "cancelled w' = (cancelled w)[c := True]" "tasks w' = tasks w"
    by blast
  from assms(1) r(2) have "handle_ok w (jobs w ! j)"
    by (simp add: Inv_def handles_ok_def)
  with r(1) obtain rest where h: "Ctx (jobs w ! j) = c # rest" "c < length (cancelled w)"
    by (auto simp: handle_ok_def)
  from assms(1) have cur: "live_current w"
    by (simp add: Inv_def)
  show ?thesis
  proof (rule Inv_kill[OF assms(1) r(2) r(3) _ _ r(5)])
    show "handle_ok w' ((jobs w ! j)\<lparr>isRunning := False\<rparr>)"
      using h r(1) by (simp add: handle_ok_def r(4))
    show "length (cancelled w) \<le> length (cancelled w')"
      by (simp add: r(4))
    show "live w t" if "live w' t" for t
      using live_after_cancel[of w' w c t] that r(4) by simp
    show "\<not> live w' (tasks w ! k)" if k: "k < length (tasks w)" "job_of (tasks w ! k) = j" for k
    proof
      assume l: "live w' (tasks w ! k)"
      then have "live w (tasks w ! k)"
        using live_after_cancel[of w' w c] r(4) by simp
      with cur k have "done_ch (tasks w ! k) = c # rest"
        by (auto simp: live_current_def h)
      with dead_after_cancel[of w' w c "tasks w ! k" rest] r(4) h(2) l show False
        by simp
    qed
  qed
qed

lemma WithContext_result:
  assumes "WithContext j (Some p) w = Inr (j', w')" "cancelFunc (jobs w ! j) = Some c"
  shows "j' = j \<and> j < length (jobs w)
      \<and> jobs w' = (jobs w)[j := (jobs w ! j)\<lparr>Ctx := length (cancelled w) # p,
                                              cancelFunc := Some (length (cancelled w))\<rparr>]
      \<and> cancelled w' = (cancelled w)[c := True] @ [False]
      \<and> tasks w' = tasks w \<and> calls w' = calls w \<and> clock w' = clock w"
  using assms
  by (auto simp: WithContext_def WithCancel_def cancel_def upd_job_def Let_def split: if_splits)

lemma Inv_WithContext:
  assumes "Inv w" "WithContext j p w = Inr (j', w')"
  shows "Inv w'"
proof -
  from assms(2) have jl: "j < length (jobs w)"
    by (auto simp: WithContext_def split: if_splits)
  from assms(2) obtain q where q: "p = Some q"
    by (cases p) (auto simp: WithContext_def Let_def split: if_splits)
  from assms(1) jl have "handle_ok w (jobs w ! j)"
    by (simp add: Inv_def handles_ok_def)
  then obtain c rest where h: "Ctx (jobs w ! j) = c # rest" "cancelFunc (jobs w ! j) = Some c"
      "c < length (cancelled w)"
    by (auto simp: handle_ok_def)
  from WithContext_result[OF assms(2)[unfolded q] h(2)] have
    r: "jobs w' = (jobs w)[j := (jobs w ! j)\<lparr>Ctx := length (cancelled w) # q,
                                              cancelFunc := Some (length (cancelled w))\<rparr>]"
       "cancelled w' = (cancelled w)[c := True] @ [False]" "tasks w' = tasks w"
    by simp_all
  from assms(1) have cur: "live_current w"
    by (simp add: Inv_def)
  show ?thesis
  proof (rule Inv_kill[OF assms(1) jl r(1) _ _ r(3)])
    show "handle_ok w' ((jobs w ! j)\<lparr>Ctx := length (cancelled w) # q,
                                              cancelFunc := Some (length (cancelled w))\<rparr>)"
      by (simp add: handle_ok_def r(2))
    show "length (cancelled w) \<le> length (cancelled w')"
      by (simp add: r(2))
    show "live w t" if "live w' t" for t
      using live_after_cancel[of w' w c t] that r(2) by simp
    show "\<not> live w' (tasks w ! k)" if k: "k < length (tasks w)" "job_of (tasks w ! k) = j" for k
    proof
      assume l: "live w' (tasks w ! k)"
      then have "live w (tasks w ! k)"
        using live_after_cancel[of w' w c] r(2) by simp
      with cur k have "done_ch (tasks w ! k) = c # rest"
        by (auto simp: live_current_def h)
      with dead_after_cancel[of w' w c "tasks w ! k" rest] r(2) h(3) l show False
        by simp
    qed
  qed
qed

lemma Start_noop:
  assumes "j < length (jobs w)" "Fn (jobs w ! j) = None \<or> isRunning (jobs w ! j)"
  shows "Start j w = Inr w"
  using assms by (auto simp: Start_def)

lemma Start_launch:
  assumes "j < length (jobs w)" "Fn (jobs w ! j) \<noteq> None" "\<not> isRunning (jobs w ! j)"
  shows "Start j w = Inr (w\<lparr>jobs := (jobs w)[j := (jobs w ! j)\<lparr>isRunning := True\<rparr>],
            tasks := tasks w @ [\<lparr>job_of = j, done_ch = Ctx (jobs w ! j), at = AtTop\<rparr>]\<rparr>)"
  using assms by (auto simp: Start_def upd_job_def Let_def)

lemma Inv_Start:
  assumes "Inv w" "Start j w = Inr w'"
  shows "Inv w'"
proof -
  from assms(2) have jl: "j < length (jobs w)"
    by (auto simp: Start_def split: if_splits)
  show ?thesis
  proof (cases "Fn (jobs w ! j) = None \<or> isRunning (jobs w ! j)")
    case True
    then show ?thesis using assms Start_noop[OF jl] by simp
  next
    case False
    let ?J = "(jobs w ! j)\<lparr>isRunning := True\<rparr>"
    let ?w1 = "w\<lparr>jobs := (jobs w)[j := ?J]\<rparr>"
    from assms(1) have cur: "live_current w"
      by (simp add: Inv_def)
    have dead: "\<not> live w (tasks w ! k)" if "k < length (tasks w)" "job_of (tasks w ! k) = j" for k
      using cur that False by (auto simp: live_current_def)
    have live_eq: "live ?w1 t = live w t" for t
      by (simp add: live_def is_done_def)
    from assms(1) jl have hk: "handle_ok w (jobs w ! j)"
      by (simp add: Inv_def handles_ok_def)
    have i1: "Inv ?w1"
    proof (rule Inv_kill[OF assms(1) jl, of _ ?J])
      show "handle_ok ?w1 ?J" using hk by (simp add: handle_ok_def)
    qed (simp_all add: live_eq dead)
    have "Inv (?w1\<lparr>tasks := tasks ?w1 @ [\<lparr>job_of = j, done_ch = Ctx (jobs ?w1 ! j), at = AtTop\<rparr>]\<rparr>)"
      by (rule Inv_append_task[OF i1]) (simp_all add: jl live_eq dead)
    moreover have "w' = ?w1\<lparr>tasks := tasks ?w1 @ [\<lparr>job_of = j, done_ch = Ctx (jobs ?w1 ! j), at = AtTop\<rparr>]\<rparr>"
      using assms(2) False Start_launch[OF jl] jl by simp
    ultimately show ?thesis by simp
  qed
qed

lemma loop_step_shape:
  assumes "loop_event g e" "step parse nxt e w = Some (Inr w')"
  shows "jobs w' = jobs w \<and> cancelled w' = cancelled w \<and> clock w' = clock w
     \<and> g < length (tasks w) \<and> at (tasks w ! g) \<noteq> Exited
     \<and> tasks w' = (tasks w)[g := (tasks w ! g)\<lparr>at := at (tasks w' ! g)\<rparr>]"
  using assms
  by (auto simp: loop_event_def loop_iter_def loop_fire_def loop_return_def loop_done_def
        set_at_def Let_def split: if_splits option.splits position.splits)

lemma Inv_loop_step:
  assumes "Inv w" "loop_event g e" "step parse nxt e w = Some (Inr w')"
  shows "Inv w'"
proof -
  define p where "p = at (tasks w' ! g)"
  from loop_step_shape[OF assms(2,3)] have
    r: "jobs w' = jobs w" "cancelled w' = cancelled w" "g < length (tasks w)"
       "at (tasks w ! g) \<noteq> Exited" "tasks w' = (tasks w)[g := (tasks w ! g)\<lparr>at := p\<rparr>]"
    by (simp_all add: p_def)
  show ?thesis
  proof (rule Inv_mono[OF assms(1) r(1)])
    show "length (tasks w') = length (tasks w)" by (simp add: r(5))
    show "length (cancelled w) \<le> length (cancelled w')" by (simp add: r(2))
    show "job_of (tasks w' ! k) = job_of (tasks w ! k) \<and> done_ch (tasks w' ! k) = done_ch (tasks w ! k)
       \<and> (live w' (tasks w' ! k) \<longrightarrow> live w (tasks w ! k))" if "k < length (tasks w)" for k
      using that r(3,4) by (cases "k = g") (simp_all add: r(5) live_def is_done_def r(2))
  qed
qed

lemma Inv_step:
  assumes "Inv w" "step parse nxt e w = Some (Inr w')"
  shows "Inv w'"
proof (cases e)
  case (ESchedule str)
  then show ?thesis
    using assms Inv_Schedule[OF assms(1), of parse str]
    by (auto simp: dropret_def split: sum.splits)
next
  case (ESetBlocking j b)
  then show ?thesis
    using assms Inv_simple[OF assms(1), of w' j "(jobs w ! j)\<lparr>Blocking := b\<rparr>"]
    by (auto simp: dropret_def SetBlocking_def upd_job_def split: sum.splits if_splits)
next
  case (EWithContext j p)
  then show ?thesis
    using assms Inv_WithContext[OF assms(1), of j p]
    by (auto simp: dropret_def split: sum.splits)
next
  case (ESetTimezone j loc)
  then show ?thesis
    using assms Inv_simple[OF assms(1), of w' j "(jobs w ! j)\<lparr>Timezone := loc\<rparr>"]
    by (auto simp: dropret_def SetTimezone_def upd_job_def split: sum.splits if_splits)
next
  case (EExecute j f)
  then show ?thesis
    using assms Inv_simple[OF assms(1), of w' j "(jobs w ! j)\<lparr>Fn := f\<rparr>"]
    by (auto simp: dropret_def Execute_def upd_job_def split: sum.splits if_splits)
next
  case (EStart j)
  then show ?thesis using assms Inv_Start by auto
next
  case (EStop j)
  then show ?thesis using assms Inv_Stop by auto
next
  case (ENewContext p)
  with assms(2) have w': "w' = w\<lparr>cancelled := cancelled w @ [False]\<rparr>"
    by (auto simp: WithCancel_def Let_def)
  show ?thesis
    by (rule Inv_mono[OF assms(1)]) (simp_all add: w' live_def is_done_def done_in_append)
next
  case (ECancel c)
  with assms(2) have w': "w' = w\<lparr>cancelled := (cancelled w)[c := True]\<rparr>"
    by (auto simp: cancel_def)
  show ?thesis
    by (rule Inv_mono[OF assms(1)]) (auto simp: w' live_def is_done_def dest: done_in_update_mono)
next
  case (ETick d)
  with assms(2) have w': "w' = w\<lparr>clock := clock w + int d\<rparr>"
    by auto
  show ?thesis
    by (rule Inv_mono[OF assms(1)]) (simp_all add: w' live_def is_done_def)
next
  case (EIter g)
  then show ?thesis using assms Inv_loop_step[of w g e] by (simp add: loop_event_def)
next
  case (EFire g)
  then show ?thesis using assms Inv_loop_step[of w g e] by (simp add: loop_event_def)
next
  case (EReturn g)
  then show ?thesis using assms Inv_loop_step[of w g e] by (simp add: loop_event_def)
next
  case (EDone g)
  then show ?thesis using assms Inv_loop_step[of w g e] by (simp add: loop_event_def)
qed

lemma Inv_run:
  assumes "Inv w" "run parse nxt es w = Some (Inr w')"
  shows "Inv w'"
  using assms
proof (induction es arbitrary: w)
  case Nil
  then show ?case by simp
next
  case (Cons e es)
  then show ?case
    by (auto split: option.splits sum.splits dest: Inv_step)
qed

section \<open>The examples, evaluated\<close>

lemmas ex_defs = lit_def Fields_def isSpace_def count_parser_def tick_next_def init_def
  Schedule_def NewParser_def WithCancel_def Background_def dropret_def Execute_def upd_job_def
  Start_def Stop_def loop_iter_def loop_fire_def loop_done_def loop_return_def set_at_def UTC_def
  cancel_def SetBlocking_def SetTimezone_def WithContext_def is_done_def fired_in_def
  example_job_def example_world_def

lemma example_world_reached:
  "run count_parser tick_next [ESchedule (lit ''* * * * * *''), EExecute 0 (Some 1)] init
     = Some (Inr example_world)"
  by (simp add: ex_defs)

section \<open>The fluent setters\<close>

text \<open>
  Claim C10. \<^verbatim>\<open>SetBlocking\<close>, \<^verbatim>\<open>SetTimezone\<close> and \<^verbatim>\<open>Execute\<close>, called on an allocated
  Job, return the pointer they were called on, and the state afterwards is the state
  before with one field of that Job set: \<^verbatim>\<open>Blocking\<close>, \<^verbatim>\<open>Timezone\<close>, \<^verbatim>\<open>Fn\<close>. The schedule
  text, the compiled schedule, the context and its cancel function, the running flag, the
  other two settings, every other Job, the loops, the clock are as they were.
\<close>

theorem mutators_touch_one_field:
  assumes "j < length (jobs w)"
  shows "SetBlocking j b w = Inr (j, w\<lparr>jobs := (jobs w)[j := (jobs w ! j)\<lparr>Blocking := b\<rparr>]\<rparr>)
       \<and> SetTimezone j loc w = Inr (j, w\<lparr>jobs := (jobs w)[j := (jobs w ! j)\<lparr>Timezone := loc\<rparr>]\<rparr>)
       \<and> Execute j f w = Inr (j, w\<lparr>jobs := (jobs w)[j := (jobs w ! j)\<lparr>Fn := f\<rparr>]\<rparr>)"
  using assms by (simp add: SetBlocking_def SetTimezone_def Execute_def upd_job_def)

theorem mutators_touch_one_field_witness:
  "(0::nat) < length (jobs example_world)
   \<and> SetBlocking 0 True example_world = Inr (0, example_world\<lparr>jobs := [example_job\<lparr>Blocking := True\<rparr>]\<rparr>)
   \<and> SetTimezone 0 (Some ''America/New_York'') example_world
        = Inr (0, example_world\<lparr>jobs := [example_job\<lparr>Timezone := Some ''America/New_York''\<rparr>]\<rparr>)
   \<and> Execute 0 (Some 2) example_world = Inr (0, example_world\<lparr>jobs := [example_job\<lparr>Fn := Some 2\<rparr>]\<rparr>)"
  using mutators_touch_one_field [of 0 example_world True "Some ''America/New_York''" "Some 2"]
  by (simp add: example_world_def)

section \<open>Construction\<close>



section \<open>Serialization\<close>







section \<open>Replacing the context\<close>

lemma ctx_ok_fresh: "ctx_ok cs x \<Longrightarrow> length cs \<notin> set x"
  by (induction x) auto

lemma done_in_update_other: "c \<notin> set x \<Longrightarrow> done_in (cs[c := True]) x = done_in cs x"
  by (induction x) (auto simp: fired_in_update)

text \<open>
  Claim C5. \<^verbatim>\<open>WithContext\<close>, called on a Job that has a cancel function with a parent
  context whose cancel functions exist, returns the pointer it was called on. Afterwards
  the Job's previous cancel function has been called, and the Job's context is a new one
  derived from the parent, with a new cancel function that has not been called. In any
  state in which the parent is done the Job's context is done; calling the Job's new
  cancel function ends the Job's context and leaves the parent as it was.
\<close>

theorem WithContext_derives:
  assumes "j < length (jobs w)" and "cancelFunc (jobs w ! j) = Some c"
    and "c < length (cancelled w)" and "ctx_ok (cancelled w) p"
  shows "\<exists>w'. WithContext j (Some p) w = Inr (j, w')
     \<and> fired_in (cancelled w') c
     \<and> Ctx (jobs w' ! j) = length (cancelled w) # p
     \<and> cancelFunc (jobs w' ! j) = Some (length (cancelled w))
     \<and> \<not> fired_in (cancelled w') (length (cancelled w))
     \<and> (\<forall>v :: 's world. is_done v p \<longrightarrow> is_done v (Ctx (jobs w' ! j)))
     \<and> is_done (cancel (length (cancelled w)) w') (Ctx (jobs w' ! j))
     \<and> (is_done (cancel (length (cancelled w)) w') p \<longleftrightarrow> is_done w' p)"
proof -
  define n where "n = length (cancelled w)"
  define w' where "w' = w\<lparr>cancelled := (cancelled w)[c := True] @ [False],
     jobs := (jobs w)[j := (jobs w ! j)\<lparr>Ctx := n # p, cancelFunc := Some n\<rparr>]\<rparr>"
  have r: "WithContext j (Some p) w = Inr (j, w')"
    using assms(1,2)
    by (simp add: WithContext_def WithCancel_def cancel_def upd_job_def Let_def w'_def n_def)
  have np: "n \<notin> set p"
    using ctx_ok_fresh[OF assms(4)] by (simp add: n_def)
  have "fired_in (cancelled w') c"
    using assms(3) by (simp add: w'_def fired_in_def nth_append)
  moreover have "Ctx (jobs w' ! j) = n # p" "cancelFunc (jobs w' ! j) = Some n"
    using assms(1) by (simp_all add: w'_def)
  moreover have "\<not> fired_in (cancelled w') n"
    by (simp add: w'_def fired_in_def n_def nth_append)
  moreover have "is_done (cancel n w') (n # p)"
    by (simp add: is_done_def cancel_def fired_in_update w'_def n_def)
  moreover have "is_done (cancel n w') p \<longleftrightarrow> is_done w' p"
    using np by (simp add: is_done_def cancel_def done_in_update_other)
  ultimately show ?thesis
    using r unfolding n_def[symmetric] by (intro exI[of _ w']) (simp add: is_done_def)
qed

theorem WithContext_derives_witness:
  "(0::nat) < length (jobs example_world) \<and> cancelFunc (jobs example_world ! 0) = Some 0
  \<and> (0::nat) < length (cancelled example_world) \<and> ctx_ok (cancelled example_world) [0]
  \<and> (\<exists>w'. WithContext 0 (Some [0]) example_world = Inr (0, w')
     \<and> fired_in (cancelled w') 0
     \<and> Ctx (jobs w' ! 0) = [1, 0]
     \<and> cancelFunc (jobs w' ! 0) = Some 1
     \<and> \<not> fired_in (cancelled w') 1
     \<and> is_done w' [0] \<and> is_done w' (Ctx (jobs w' ! 0))
     \<and> is_done (cancel 1 w') (Ctx (jobs w' ! 0))
     \<and> (is_done (cancel 1 w') [0] \<longleftrightarrow> is_done w' [0]))"
proof -
  have h: "(0::nat) < length (jobs example_world)" "cancelFunc (jobs example_world ! 0) = Some 0"
    "(0::nat) < length (cancelled example_world)" "ctx_ok (cancelled example_world) [0]"
    by (simp_all add: example_world_def example_job_def)
  from WithContext_derives [OF h] obtain w' where
    w': "WithContext 0 (Some [0]) example_world = Inr (0, w')"
     "fired_in (cancelled w') 0"
     "Ctx (jobs w' ! 0) = length (cancelled example_world) # [0]"
     "cancelFunc (jobs w' ! 0) = Some (length (cancelled example_world))"
     "\<not> fired_in (cancelled w') (length (cancelled example_world))"
     "\<forall>v :: nat world. is_done v [0] \<longrightarrow> is_done v (Ctx (jobs w' ! 0))"
     "is_done (cancel (length (cancelled example_world)) w') (Ctx (jobs w' ! 0))"
     "is_done (cancel (length (cancelled example_world)) w') [0] \<longleftrightarrow> is_done w' [0]"
    by blast
  have d: "is_done w' [0]"
    using w'(2) by (simp add: is_done_def)
  with w'(6) have "is_done w' (Ctx (jobs w' ! 0))" by blast
  with h w' d show ?thesis
    by (intro conjI exI[of _ w']) (simp_all add: example_world_def)
qed

section \<open>Stop\<close>

text \<open>
  Claim C4. In a state reached by an execution, \<^verbatim>\<open>Stop\<close> on an allocated Job never
  panics. When the Job is running it clears the running flag and calls the cancel
  function of the Job's current context, which is done afterwards, and changes nothing
  else. When the Job is not running (never started, or stopped before) the state is
  unchanged. After \<^verbatim>\<open>Stop\<close> the Job is not running and a second \<^verbatim>\<open>Stop\<close> changes nothing.
\<close>

theorem Stop_only_when_running:
  assumes "run parse nxt es init = Some (Inr w)" and "j < length (jobs w)"
  shows "(isRunning (jobs w ! j) \<longrightarrow>
            (\<exists>c rest. Ctx (jobs w ! j) = c # rest \<and> cancelFunc (jobs w ! j) = Some c
               \<and> Stop j w = Inr (w\<lparr>jobs := (jobs w)[j := (jobs w ! j)\<lparr>isRunning := False\<rparr>],
                                   cancelled := (cancelled w)[c := True]\<rparr>)
               \<and> is_done (w\<lparr>cancelled := (cancelled w)[c := True]\<rparr>) (Ctx (jobs w ! j))))
       \<and> (\<not> isRunning (jobs w ! j) \<longrightarrow> Stop j w = Inr w)
       \<and> (\<exists>w'. Stop j w = Inr w' \<and> \<not> isRunning (jobs w' ! j) \<and> Stop j w' = Inr w')"
proof -
  have "Inv w"
    using Inv_run[OF Inv_init assms(1)] .
  with assms(2) obtain c rest where h: "Ctx (jobs w ! j) = c # rest"
      "cancelFunc (jobs w ! j) = Some c" "c < length (cancelled w)"
    by (auto simp: Inv_def handles_ok_def handle_ok_def)
  show ?thesis
  proof (cases "isRunning (jobs w ! j)")
    case True
    then show ?thesis
      using assms(2) h
      by (simp add: Stop_def cancel_def upd_job_def is_done_def fired_in_update)
  next
    case False
    then show ?thesis
      using assms(2) by (simp add: Stop_def)
  qed
qed

theorem Stop_only_when_running_witness:
  "run count_parser tick_next [ESchedule (lit ''* * * * * *''), EExecute 0 (Some 1), EStart 0] init
     = Some (Inr (example_world\<lparr>jobs := [example_job\<lparr>isRunning := True\<rparr>],
                    tasks := [\<lparr>job_of = 0, done_ch = [0], at = AtTop\<rparr>]\<rparr>))
   \<and> Stop 0 (example_world\<lparr>jobs := [example_job\<lparr>isRunning := True\<rparr>],
                    tasks := [\<lparr>job_of = 0, done_ch = [0], at = AtTop\<rparr>]\<rparr>)
       = Inr (example_world\<lparr>cancelled := [True], tasks := [\<lparr>job_of = 0, done_ch = [0], at = AtTop\<rparr>]\<rparr>)
   \<and> Stop 0 (example_world\<lparr>cancelled := [True], tasks := [\<lparr>job_of = 0, done_ch = [0], at = AtTop\<rparr>]\<rparr>)
       = Inr (example_world\<lparr>cancelled := [True], tasks := [\<lparr>job_of = 0, done_ch = [0], at = AtTop\<rparr>]\<rparr>)
   \<and> run count_parser tick_next [ESchedule (lit ''* * * * * *''), EExecute 0 (Some 1)] init
     = Some (Inr example_world)
   \<and> \<not> isRunning (jobs example_world ! 0)
   \<and> Stop 0 example_world = Inr example_world"
proof -
  let ?w = "example_world\<lparr>jobs := [example_job\<lparr>isRunning := True\<rparr>],
                    tasks := [\<lparr>job_of = 0, done_ch = [0], at = AtTop\<rparr>]\<rparr>"
  have r: "run count_parser tick_next [ESchedule (lit ''* * * * * *''), EExecute 0 (Some 1), EStart 0] init
     = Some (Inr ?w)"
    by (simp add: ex_defs)
  have j: "0 < length (jobs ?w)" "0 < length (jobs example_world)"
    by (simp_all add: example_world_def)
  show ?thesis
    using Stop_only_when_running [OF r j(1)] Stop_only_when_running [OF example_world_reached j(2)] r
      example_world_reached
    by (simp add: example_world_def example_job_def Stop_def)
qed

section \<open>The running flag\<close>

lemma step_keeps_running:
  assumes "step parse nxt e w = Some (Inr w')" "j < length (jobs w)" "isRunning (jobs w ! j)"
    "e \<noteq> EStop j"
  shows "j < length (jobs w') \<and> isRunning (jobs w' ! j)"
proof (cases "\<exists>g. loop_event g e")
  case True
  then show ?thesis using assms loop_step_shape by metis
next
  case False
  then show ?thesis
    using assms
    by (cases e)
      (auto simp: loop_event_def dropret_def Schedule_def SetBlocking_def WithContext_def
        SetTimezone_def Execute_def Start_def Stop_def WithCancel_def cancel_def upd_job_def
        Let_def nth_append nth_list_update
        split: sum.splits if_splits option.splits prod.splits)
qed

lemma loop_step_keeps_jobs:
  "loop_event g e \<Longrightarrow> step parse nxt e v = Some (Inr v') \<Longrightarrow> jobs v' = jobs v"
  using loop_step_shape by blast

text \<open>
  Claim C9. Only \<^verbatim>\<open>Stop\<close> clears the running flag. A step of a loop leaves every Job as
  it is, and along an execution without \<^verbatim>\<open>Stop\<close> on a Job that is running the Job stays
  running, so that \<^verbatim>\<open>Start\<close> at the end of it changes nothing: also when the loop has
  returned meanwhile, its context having been cancelled from the parent or replaced.
\<close>

theorem flag_cleared_only_by_Stop:
  assumes "run parse nxt es w = Some (Inr w')" and "j < length (jobs w)"
    and "isRunning (jobs w ! j)" and "EStop j \<notin> set es"
  shows "j < length (jobs w') \<and> isRunning (jobs w' ! j) \<and> Start j w' = Inr w'
       \<and> (\<forall>g e v v'. loop_event g e \<and> step parse nxt e v = Some (Inr v') \<longrightarrow> jobs v' = jobs v)"
proof -
  have "j < length (jobs w') \<and> isRunning (jobs w' ! j)"
    using assms
  proof (induction es arbitrary: w)
    case Nil
    then show ?case by simp
  next
    case (Cons e es)
    from Cons.prems(1) obtain w1 where s: "step parse nxt e w = Some (Inr w1)"
        and r: "run parse nxt es w1 = Some (Inr w')"
      by (auto split: option.splits sum.splits)
    from Cons.prems(4) have ne: "e \<noteq> EStop j" "EStop j \<notin> set es"
      by auto
    from step_keeps_running[OF s Cons.prems(2,3) ne(1)] Cons.IH[OF r _ _ ne(2)] show ?case
      by simp
  qed
  then show ?thesis
    using Start_noop[of j w'] loop_step_keeps_jobs[of _ _ parse nxt] by blast
qed

theorem flag_cleared_only_by_Stop_witness:
  "run count_parser tick_next [EIter 0, ECancel 1, EDone 0]
      \<lparr>jobs = [example_job\<lparr>Ctx := [2, 1], cancelFunc := Some 2, isRunning := True\<rparr>],
       cancelled = [True, False, False],
       tasks = [\<lparr>job_of = 0, done_ch = [2, 1], at = AtTop\<rparr>], calls = [], clock = 0\<rparr>
    = Some (Inr
      \<lparr>jobs = [example_job\<lparr>Ctx := [2, 1], cancelFunc := Some 2, isRunning := True\<rparr>],
       cancelled = [True, True, False],
       tasks = [\<lparr>job_of = 0, done_ch = [2, 1], at = Exited\<rparr>], calls = [], clock = 0\<rparr>)
  \<and> EStop 0 \<notin> set [EIter 0, ECancel 1, EDone 0]
  \<and> Start 0
      \<lparr>jobs = [example_job\<lparr>Ctx := [2, 1], cancelFunc := Some 2, isRunning := True\<rparr>],
       cancelled = [True, True, False],
       tasks = [\<lparr>job_of = 0, done_ch = [2, 1], at = Exited\<rparr>], calls = [], clock = 0\<rparr>
    = Inr
      \<lparr>jobs = [example_job\<lparr>Ctx := [2, 1], cancelFunc := Some 2, isRunning := True\<rparr>],
       cancelled = [True, True, False],
       tasks = [\<lparr>job_of = 0, done_ch = [2, 1], at = Exited\<rparr>], calls = [], clock = 0\<rparr>
  \<and> run count_parser tick_next [ESchedule (lit ''* * * * * *''), EExecute 0 (Some 1),
        ENewContext [], EWithContext 0 (Some [1]), EStart 0] init
    = Some (Inr
      \<lparr>jobs = [example_job\<lparr>Ctx := [2, 1], cancelFunc := Some 2, isRunning := True\<rparr>],
       cancelled = [True, False, False],
       tasks = [\<lparr>job_of = 0, done_ch = [2, 1], at = AtTop\<rparr>], calls = [], clock = 0\<rparr>)"
proof -
  let ?w = "\<lparr>jobs = [example_job\<lparr>Ctx := [2, 1], cancelFunc := Some 2, isRunning := True\<rparr>],
       cancelled = [True, False, False],
       tasks = [\<lparr>job_of = 0, done_ch = [2, 1], at = AtTop\<rparr>], calls = [], clock = 0\<rparr> :: nat world"
  let ?w' = "\<lparr>jobs = [example_job\<lparr>Ctx := [2, 1], cancelFunc := Some 2, isRunning := True\<rparr>],
       cancelled = [True, True, False],
       tasks = [\<lparr>job_of = 0, done_ch = [2, 1], at = Exited\<rparr>], calls = [], clock = 0\<rparr> :: nat world"
  have r: "run count_parser tick_next [EIter 0, ECancel 1, EDone 0] ?w = Some (Inr ?w')"
    by (simp add: ex_defs)
  have h: "0 < length (jobs ?w)" "isRunning (jobs ?w ! 0)" "EStop 0 \<notin> set [EIter 0, ECancel 1, EDone 0]"
    by (simp_all add: example_job_def)
  have i: "run count_parser tick_next [ESchedule (lit ''* * * * * *''), EExecute 0 (Some 1),
        ENewContext [], EWithContext 0 (Some [1]), EStart 0] init = Some (Inr ?w)"
    by (simp add: ex_defs)
  show ?thesis
    using flag_cleared_only_by_Stop [OF r h] r i by simp
qed

section \<open>Start\<close>




section \<open>Cancellation of the loop\<close>









section \<open>What the loop reads, and when\<close>

lemma step_keeps_done_ch:
  assumes "step parse nxt e w = Some (Inr w')" "g < length (tasks w)"
  shows "g < length (tasks w') \<and> done_ch (tasks w' ! g) = done_ch (tasks w ! g)
       \<and> job_of (tasks w' ! g) = job_of (tasks w ! g)"
proof (cases "\<exists>h. loop_event h e")
  case True
  then obtain h where h: "loop_event h e" by blast
  define p where "p = at (tasks w' ! h)"
  from loop_step_shape[OF h assms(1)] have
    t: "tasks w' = (tasks w)[h := (tasks w ! h)\<lparr>at := p\<rparr>]"
    by (simp add: p_def)
  show ?thesis
    using assms(2) by (cases "g = h") (simp_all add: t)
next
  case False
  then show ?thesis
    using assms
    by (cases e)
      (auto simp: loop_event_def dropret_def Schedule_def SetBlocking_def WithContext_def
        SetTimezone_def Execute_def Start_def Stop_def WithCancel_def cancel_def upd_job_def
        Let_def nth_append
        split: sum.splits if_splits option.splits prod.splits)
qed

lemma run_keeps_done_ch:
  assumes "run parse nxt es w = Some (Inr w')" "g < length (tasks w)"
  shows "g < length (tasks w') \<and> done_ch (tasks w' ! g) = done_ch (tasks w ! g)
       \<and> job_of (tasks w' ! g) = job_of (tasks w ! g)"
  using assms
proof (induction es arbitrary: w)
  case Nil
  then show ?case by simp
next
  case (Cons e es)
  from Cons.prems(1) obtain w1 where s: "step parse nxt e w = Some (Inr w1)"
      and r: "run parse nxt es w1 = Some (Inr w')"
    by (auto split: option.splits sum.splits)
  from step_keeps_done_ch[OF s Cons.prems(2)] Cons.IH[OF r] show ?case
    by simp
qed

lemma config_step_keeps_tasks:
  assumes "config_event e" "step parse nxt e w = Some (Inr w')"
  shows "tasks w' = tasks w"
  using assms
  by (cases e)
    (auto simp: dropret_def SetBlocking_def WithContext_def SetTimezone_def Execute_def
      WithCancel_def cancel_def upd_job_def Let_def
      split: sum.splits if_splits option.splits prod.splits)

text \<open>
  Claim C1, amended. \<^verbatim>\<open>Start\<close> reads the \<^verbatim>\<open>done\<close> channel once, from the context the
  Job has at that moment, and no event of any execution changes the channel a loop
  waits on. At the top of an iteration the loop reads, in one step, the time zone, from
  which the timer is computed, and the blocking flag. No call of \<^verbatim>\<open>SetBlocking\<close>,
  \<^verbatim>\<open>SetTimezone\<close>, \<^verbatim>\<open>Execute\<close> or \<^verbatim>\<open>WithContext\<close> changes what a loop has read. When
  the timer fires the loop invokes the callback that the Job has then, with the context
  that the Job has then, inline or detached as the blocking flag it read says.
\<close>

theorem loop_snapshot:
  assumes "g < length (tasks w)"
  shows "(\<forall>tz. at (tasks w ! g) = AtTop \<and> Timezone (jobs w ! job_of (tasks w ! g)) = Some tz \<longrightarrow>
            step parse nxt (EIter g) w =
              Some (Inr (set_at g
                (Waiting (Blocking (jobs w ! job_of (tasks w ! g)))
                   (clock w + max 0
                      (nxt (Schedule_fld (jobs w ! job_of (tasks w ! g))) tz (clock w) - clock w)))
                w)))
       \<and> (\<forall>e w'. config_event e \<and> step parse nxt e w = Some (Inr w') \<longrightarrow> tasks w' = tasks w)
       \<and> (\<forall>b t f. at (tasks w ! g) = Waiting b t \<and> t \<le> clock w
              \<and> Fn (jobs w ! job_of (tasks w ! g)) = Some f \<longrightarrow>
            step parse nxt (EFire g) w =
              Some (Inr (set_at g (if b then InCallback else AtTop)
                (w\<lparr>calls := calls w @
                    [\<lparr>by_task = g, fn_called = f,
                      ctx_passed = Ctx (jobs w ! job_of (tasks w ! g)),
                      how = (if b then Inline else Detached)\<rparr>]\<rparr>))))
       \<and> (\<forall>es w'. run parse nxt es w = Some (Inr w') \<longrightarrow>
            g < length (tasks w') \<and> done_ch (tasks w' ! g) = done_ch (tasks w ! g))
       \<and> (\<forall>j. j < length (jobs w) \<and> Fn (jobs w ! j) \<noteq> None \<and> \<not> isRunning (jobs w ! j) \<longrightarrow>
            (\<exists>w'. Start j w = Inr w' \<and> tasks w' = tasks w @
               [\<lparr>job_of = j, done_ch = Ctx (jobs w ! j), at = AtTop\<rparr>]))"
proof -
  have a: "step parse nxt (EIter g) w =
              Some (Inr (set_at g
                (Waiting (Blocking (jobs w ! job_of (tasks w ! g)))
                   (clock w + max 0
                      (nxt (Schedule_fld (jobs w ! job_of (tasks w ! g))) tz (clock w) - clock w)))
                w))"
    if "at (tasks w ! g) = AtTop" "Timezone (jobs w ! job_of (tasks w ! g)) = Some tz" for tz
    using that assms by (simp add: loop_iter_def Let_def)
  have b: "tasks w' = tasks w" if "config_event e" "step parse nxt e w = Some (Inr w')" for e w'
    using config_step_keeps_tasks[OF that] .
  have c: "step parse nxt (EFire g) w =
              Some (Inr (set_at g (if b then InCallback else AtTop)
                (w\<lparr>calls := calls w @
                    [\<lparr>by_task = g, fn_called = f,
                      ctx_passed = Ctx (jobs w ! job_of (tasks w ! g)),
                      how = (if b then Inline else Detached)\<rparr>]\<rparr>)))"
    if "at (tasks w ! g) = Waiting b t" "t \<le> clock w"
      "Fn (jobs w ! job_of (tasks w ! g)) = Some f" for b t f
    using that assms by (simp add: loop_fire_def Let_def)
  have d: "g < length (tasks w') \<and> done_ch (tasks w' ! g) = done_ch (tasks w ! g)"
    if "run parse nxt es w = Some (Inr w')" for es w'
    using run_keeps_done_ch[OF that assms] by simp
  have e: "\<exists>w'. Start j w = Inr w' \<and> tasks w' = tasks w @
               [\<lparr>job_of = j, done_ch = Ctx (jobs w ! j), at = AtTop\<rparr>]"
    if "j < length (jobs w)" "Fn (jobs w ! j) \<noteq> None" "\<not> isRunning (jobs w ! j)" for j
    using Start_launch[OF that] by simp
  from a b c d e show ?thesis by blast
qed

theorem loop_snapshot_witness:
  "(0::nat) < length (tasks \<lparr>jobs = [example_job\<lparr>isRunning := True\<rparr>], cancelled = [False],
       tasks = [\<lparr>job_of = 0, done_ch = [0], at = AtTop\<rparr>], calls = [], clock = 0\<rparr>)
 \<and> run count_parser tick_next [ESchedule (lit ''* * * * * *''), EExecute 0 (Some 1), EStart 0] init
     = Some (Inr \<lparr>jobs = [example_job\<lparr>isRunning := True\<rparr>], cancelled = [False],
       tasks = [\<lparr>job_of = 0, done_ch = [0], at = AtTop\<rparr>], calls = [], clock = 0\<rparr>)
 \<and> step count_parser tick_next (EIter 0)
      \<lparr>jobs = [example_job\<lparr>isRunning := True\<rparr>], cancelled = [False],
       tasks = [\<lparr>job_of = 0, done_ch = [0], at = AtTop\<rparr>], calls = [], clock = 0\<rparr>
     = Some (Inr \<lparr>jobs = [example_job\<lparr>isRunning := True\<rparr>], cancelled = [False],
       tasks = [\<lparr>job_of = 0, done_ch = [0], at = Waiting False 1\<rparr>], calls = [], clock = 0\<rparr>)
 \<and> config_event (ESetBlocking 0 True)
 \<and> step count_parser tick_next (ESetBlocking 0 True)
      \<lparr>jobs = [example_job\<lparr>isRunning := True\<rparr>], cancelled = [False],
       tasks = [\<lparr>job_of = 0, done_ch = [0], at = Waiting False 1\<rparr>], calls = [], clock = 0\<rparr>
     = Some (Inr \<lparr>jobs = [example_job\<lparr>Blocking := True, isRunning := True\<rparr>], cancelled = [False],
       tasks = [\<lparr>job_of = 0, done_ch = [0], at = Waiting False 1\<rparr>], calls = [], clock = 0\<rparr>)
 \<and> step count_parser tick_next (EFire 0)
      \<lparr>jobs = [example_job\<lparr>Blocking := True, isRunning := True\<rparr>], cancelled = [False],
       tasks = [\<lparr>job_of = 0, done_ch = [0], at = Waiting False 1\<rparr>], calls = [], clock = 1\<rparr>
     = Some (Inr \<lparr>jobs = [example_job\<lparr>Blocking := True, isRunning := True\<rparr>], cancelled = [False],
       tasks = [\<lparr>job_of = 0, done_ch = [0], at = AtTop\<rparr>],
       calls = [\<lparr>by_task = 0, fn_called = 1, ctx_passed = [0], how = Detached\<rparr>], clock = 1\<rparr>)
 \<and> run count_parser tick_next [EWithContext 0 (Some []), EIter 0]
      \<lparr>jobs = [example_job\<lparr>isRunning := True\<rparr>], cancelled = [False],
       tasks = [\<lparr>job_of = 0, done_ch = [0], at = AtTop\<rparr>], calls = [], clock = 0\<rparr>
     = Some (Inr \<lparr>jobs = [example_job\<lparr>Ctx := [1], cancelFunc := Some 1, isRunning := True\<rparr>],
       cancelled = [True, False],
       tasks = [\<lparr>job_of = 0, done_ch = [0], at = Waiting False 1\<rparr>], calls = [], clock = 0\<rparr>)"
proof -
  let ?a = "\<lparr>jobs = [example_job\<lparr>isRunning := True\<rparr>], cancelled = [False],
       tasks = [\<lparr>job_of = 0, done_ch = [0], at = AtTop\<rparr>], calls = [], clock = 0\<rparr> :: nat world"
  let ?b = "\<lparr>jobs = [example_job\<lparr>isRunning := True\<rparr>], cancelled = [False],
       tasks = [\<lparr>job_of = 0, done_ch = [0], at = Waiting False 1\<rparr>], calls = [], clock = 0\<rparr> :: nat world"
  let ?c = "\<lparr>jobs = [example_job\<lparr>Blocking := True, isRunning := True\<rparr>], cancelled = [False],
       tasks = [\<lparr>job_of = 0, done_ch = [0], at = Waiting False 1\<rparr>], calls = [], clock = 1\<rparr> :: nat world"
  have l: "0 < length (tasks ?a)" "0 < length (tasks ?b)" "0 < length (tasks ?c)"
    by simp_all
  have r: "run count_parser tick_next [ESchedule (lit ''* * * * * *''), EExecute 0 (Some 1), EStart 0] init
     = Some (Inr ?a)"
    by (simp add: ex_defs)
  have t1: "step count_parser tick_next (EIter 0) ?a =
              Some (Inr (set_at 0
                (Waiting (Blocking (jobs ?a ! job_of (tasks ?a ! 0)))
                   (clock ?a + max 0
                      (tick_next (Schedule_fld (jobs ?a ! job_of (tasks ?a ! 0))) tz (clock ?a)
                         - clock ?a)))
                ?a))"
    if "at (tasks ?a ! 0) = AtTop" "Timezone (jobs ?a ! job_of (tasks ?a ! 0)) = Some tz" for tz
    using loop_snapshot [OF l(1), of count_parser tick_next] that by blast
  have i: "step count_parser tick_next (EIter 0) ?a = Some (Inr ?b)"
    using t1 [of UTC] by (simp add: example_job_def tick_next_def set_at_def)
  have ce: "config_event (ESetBlocking 0 True)"
    by simp
  have sb: "step count_parser tick_next (ESetBlocking 0 True) ?b
     = Some (Inr \<lparr>jobs = [example_job\<lparr>Blocking := True, isRunning := True\<rparr>], cancelled = [False],
       tasks = [\<lparr>job_of = 0, done_ch = [0], at = Waiting False 1\<rparr>], calls = [], clock = 0\<rparr>)"
    by (simp add: ex_defs)
  have t3: "step count_parser tick_next (EFire 0) ?c =
              Some (Inr (set_at 0 (if b then InCallback else AtTop)
                (?c\<lparr>calls := calls ?c @
                    [\<lparr>by_task = 0, fn_called = f,
                      ctx_passed = Ctx (jobs ?c ! job_of (tasks ?c ! 0)),
                      how = (if b then Inline else Detached)\<rparr>]\<rparr>)))"
    if "at (tasks ?c ! 0) = Waiting b t" "t \<le> clock ?c"
      "Fn (jobs ?c ! job_of (tasks ?c ! 0)) = Some f" for b t f
    using loop_snapshot [OF l(3), of count_parser tick_next] that by blast
  have f: "step count_parser tick_next (EFire 0) ?c
     = Some (Inr \<lparr>jobs = [example_job\<lparr>Blocking := True, isRunning := True\<rparr>], cancelled = [False],
       tasks = [\<lparr>job_of = 0, done_ch = [0], at = AtTop\<rparr>],
       calls = [\<lparr>by_task = 0, fn_called = 1, ctx_passed = [0], how = Detached\<rparr>], clock = 1\<rparr>)"
    using t3 [of False 1 1] by (simp add: example_job_def set_at_def)
  have wc: "run count_parser tick_next [EWithContext 0 (Some []), EIter 0] ?a
     = Some (Inr \<lparr>jobs = [example_job\<lparr>Ctx := [1], cancelFunc := Some 1, isRunning := True\<rparr>],
       cancelled = [True, False],
       tasks = [\<lparr>job_of = 0, done_ch = [0], at = Waiting False 1\<rparr>], calls = [], clock = 0\<rparr>)"
    by (simp add: ex_defs)
  from l(1) r i ce sb f wc show ?thesis
    by (intro conjI)
qed

text \<open>
  The claim as first stated fails twice. The callback is not read at the top of the
  iteration: here \<^verbatim>\<open>Execute\<close> replaces callback 1 by callback 2 after the loop has armed
  its timer, and the loop invokes callback 2 when that timer fires. And the \<^verbatim>\<open>done\<close>
  channel is not read in each iteration: after \<^verbatim>\<open>WithContext\<close> has given the Job the
  context \<open>[1]\<close>, the next iteration of the loop still waits on the channel of \<open>[0]\<close>.
\<close>

theorem mid_iteration_counterexample:
  "run count_parser tick_next [ESchedule (lit ''* * * * * *''), EExecute 0 (Some 1), EStart 0,
        EIter 0, EExecute 0 (Some 2), ETick 5, EFire 0, EWithContext 0 (Some []), EIter 0] init
     = Some (Inr \<lparr>jobs = [example_job\<lparr>Ctx := [1], cancelFunc := Some 1, Fn := Some 2,
                                       isRunning := True\<rparr>],
          cancelled = [True, False],
          tasks = [\<lparr>job_of = 0, done_ch = [0], at = Waiting False 6\<rparr>],
          calls = [\<lparr>by_task = 0, fn_called = 2, ctx_passed = [0], how = Detached\<rparr>],
          clock = 5\<rparr>)"
  by (simp add: ex_defs)

end
